theory Spec2Isabelle
  imports Main "HOL-Library.Sublist"
begin

section \<open>gogive: vanity import paths for the go tool\<close>

text \<open>
  A shallow embedding of \<^verbatim>\<open>gogive.go\<close>: the route table (\<^verbatim>\<open>Router\<close>), the
  longest-prefix resolver (\<^verbatim>\<open>findPath\<close>), the configuration loader
  (\<^verbatim>\<open>NewRouter\<close>), the request handler (\<^verbatim>\<open>ServeHTTP\<close>) and the
  maintenance loop (\<^verbatim>\<open>loadConfig\<close>).

  Go strings are byte sequences; they are modelled as \<^typ>\<open>string\<close>, a list of
  8-bit characters.
\<close>

subsection \<open>Data model\<close>

text \<open>\<^verbatim>\<open>type Source struct { Vcs, Url string }\<close>\<close>

record Source =
  Vcs :: string
  Url :: string

text \<open>The zero value \<^verbatim>\<open>Source{}\<close>.\<close>

definition Source_zero :: Source where
  "Source_zero = \<lparr>Vcs = [], Url = []\<rparr>"

text \<open>
  \<^verbatim>\<open>type Router map[string]Source\<close>. A table is built by one call of
  \<^verbatim>\<open>NewRouter\<close> and only read afterwards, so the map is modelled by value.
  The lookup \<^verbatim>\<open>src, ok := r[path]\<close> is \<open>r path\<close>, with \<open>None\<close> for
  \<^verbatim>\<open>ok == false\<close>.
\<close>

type_synonym Router = "string \<rightharpoonup> Source"

subsection \<open>The library functions of package strings that the resolver calls\<close>

text \<open>
  \<^verbatim>\<open>strings.Split(s, "/")\<close>: the substrings of \<open>s\<close> between the separators.
  As in the library's loop, the text before the first separator is cut off and the rest
  is split again; a string without separator is returned as the only element (so the
  result is never empty, and the empty string gives one empty element).
\<close>

function Split :: "string \<Rightarrow> string list" where
  "Split s =
     (if CHR ''/'' \<in> set s
      then takeWhile (\<lambda>c. c \<noteq> CHR ''/'') s # Split (tl (dropWhile (\<lambda>c. c \<noteq> CHR ''/'') s))
      else [s])"
  by pat_completeness auto
termination
proof (relation "measure length")
  show "wf (measure length)" by simp
next
  fix s :: string
  assume "CHR ''/'' \<in> set s"
  then have "dropWhile (\<lambda>c. c \<noteq> CHR ''/'') s \<noteq> []"
    by (simp add: dropWhile_eq_Nil_conv)
  then have "length (tl (dropWhile (\<lambda>c. c \<noteq> CHR ''/'') s))
        < length (dropWhile (\<lambda>c. c \<noteq> CHR ''/'') s)"
    by simp
  also have "\<dots> \<le> length s"
    by (rule length_dropWhile_le)
  finally show "(tl (dropWhile (\<lambda>c. c \<noteq> CHR ''/'') s), s) \<in> measure length"
    by simp
qed

declare Split.simps [simp del]

text \<open>
  \<^verbatim>\<open>strings.Join(elems, "/")\<close>: the elements with one separator between each two;
  the empty string for no element.
\<close>

fun Join :: "string list \<Rightarrow> string" where
  "Join [] = []"
| "Join [x] = x"
| "Join (x # y # ys) = x @ CHR ''/'' # Join (y # ys)"

subsection \<open>The resolver\<close>

text \<open>
  \<^verbatim>\<open>
  func (r Router) findPath(path string) (Source, string, bool) {
      nodes := strings.Split(path, "/")
      for len(nodes) > 0 {
          path := strings.Join(nodes, "/")
          if src, ok := r[path]; ok {
              return src, path, true
          }
          nodes = nodes[:len(nodes)-1]
      }
      return Source{}, "", false
  }
  \<close>
  The loop is \<open>findPath_loop\<close>, on the slice \<open>nodes\<close>.
\<close>

function findPath_loop :: "Router \<Rightarrow> string list \<Rightarrow> Source \<times> string \<times> bool" where
  "findPath_loop r nodes =
     (if length nodes > 0
      then (let path = Join nodes in
            case r path of
              Some src \<Rightarrow> (src, path, True)
            | None \<Rightarrow> findPath_loop r (butlast nodes))
      else (Source_zero, [], False))"
  by pat_completeness auto
termination
  by (relation "measure (\<lambda>(r, nodes). length nodes)") auto

declare findPath_loop.simps [simp del]

definition findPath :: "Router \<Rightarrow> string \<Rightarrow> Source \<times> string \<times> bool" where
  "findPath r path = findPath_loop r (Split path)"

subsection \<open>Segment-wise ancestors\<close>

text \<open>
  The specification's notion: a prefix \<open>k\<close> is a segment-wise ancestor of a path \<open>p\<close>
  when the segments of \<open>k\<close> are the first segments of \<open>p\<close>. This definition follows
  the specification's words, not the code.
\<close>

definition ancestor :: "string \<Rightarrow> string \<Rightarrow> bool" where
  "ancestor k p \<longleftrightarrow> prefix (Split k) (Split p)"

subsection \<open>The library functions of package strings that the loader calls\<close>

text \<open>\<^verbatim>\<open>strings.HasPrefix(s, prefix)\<close>.\<close>

definition HasPrefix :: "string \<Rightarrow> string \<Rightarrow> bool" where
  "HasPrefix s pre = prefix pre s"

text \<open>
  \<^verbatim>\<open>strings.Fields(s)\<close> splits \<open>s\<close> around each run of white space characters, as
  defined by \<^verbatim>\<open>unicode.IsSpace\<close>: the six ASCII characters of \<open>asciiSpace\<close>, and
  the code points U+0085, U+00A0, U+1680, U+2000 to U+200A, U+2028, U+2029, U+202F, U+205F
  and U+3000, listed in \<open>unicodeSpaces\<close> by their UTF-8 encodings. None of these
  encodings starts with a continuation byte, and a byte that does not decode is a rune of
  width one that is not white space, so the white space runes of a byte string are the
  places where one of these encodings stands.

  \<open>spaceWidth s\<close> is the width in bytes of the white space rune that \<open>s\<close> starts
  with, and \<open>0\<close> when \<open>s\<close> starts with none.
\<close>

definition asciiSpace :: "char \<Rightarrow> bool" where
  "asciiSpace c \<longleftrightarrow> c \<in> {CHR 0x09, CHR 0x0A, CHR 0x0B, CHR 0x0C, CHR 0x0D, CHR 0x20}"

definition unicodeSpaces :: "string list" where
  "unicodeSpaces =
     [[CHR 0xC2, CHR 0x85], [CHR 0xC2, CHR 0xA0], [CHR 0xE1, CHR 0x9A, CHR 0x80],
      [CHR 0xE2, CHR 0x80, CHR 0x80], [CHR 0xE2, CHR 0x80, CHR 0x81],
      [CHR 0xE2, CHR 0x80, CHR 0x82], [CHR 0xE2, CHR 0x80, CHR 0x83],
      [CHR 0xE2, CHR 0x80, CHR 0x84], [CHR 0xE2, CHR 0x80, CHR 0x85],
      [CHR 0xE2, CHR 0x80, CHR 0x86], [CHR 0xE2, CHR 0x80, CHR 0x87],
      [CHR 0xE2, CHR 0x80, CHR 0x88], [CHR 0xE2, CHR 0x80, CHR 0x89],
      [CHR 0xE2, CHR 0x80, CHR 0x8A], [CHR 0xE2, CHR 0x80, CHR 0xA8],
      [CHR 0xE2, CHR 0x80, CHR 0xA9], [CHR 0xE2, CHR 0x80, CHR 0xAF],
      [CHR 0xE2, CHR 0x81, CHR 0x9F], [CHR 0xE3, CHR 0x80, CHR 0x80]]"

definition spaceWidth :: "string \<Rightarrow> nat" where
  "spaceWidth s =
     (case s of
        [] \<Rightarrow> 0
      | c # _ \<Rightarrow>
          if asciiSpace c then 1
          else (case find (\<lambda>u. prefix u s) unicodeSpaces of
                  Some u \<Rightarrow> length u
                | None \<Rightarrow> 0))"

text \<open>
  The scan of \<^verbatim>\<open>Fields\<close>: \<open>cur\<close> holds the bytes of the field that is being read
  (empty between fields), the second argument is the text still to read. A white space
  rune closes the field that is open; any other byte extends it; the end of the text
  closes the last field.
\<close>

function fields_scan :: "string \<Rightarrow> string \<Rightarrow> string list" where
  "fields_scan cur [] = (if cur = [] then [] else [cur])"
| "fields_scan cur (c # cs) =
     (if spaceWidth (c # cs) > 0
      then (if cur = [] then [] else [cur])
             @ fields_scan [] (drop (spaceWidth (c # cs)) (c # cs))
      else fields_scan (cur @ [c]) cs)"
  by pat_completeness auto
termination
  by (relation "measure (\<lambda>(cur, s). length s)") auto

definition Fields :: "string \<Rightarrow> string list" where
  "Fields s = fields_scan [] s"

text \<open>A string holds white space when a white space rune starts somewhere in it.\<close>

fun contains_space :: "string \<Rightarrow> bool" where
  "contains_space [] = False"
| "contains_space (c # cs) = (spaceWidth (c # cs) > 0 \<or> contains_space cs)"

text \<open>
  \<open>space_within cur s\<close>: in the text \<open>cur @ s\<close>, a white space rune starts
  inside \<open>cur\<close>. It states what the scan knows of the field that is open.
\<close>

fun space_within :: "string \<Rightarrow> string \<Rightarrow> bool" where
  "space_within [] s = False"
| "space_within (c # cs) s = (spaceWidth (c # cs @ s) > 0 \<or> space_within cs s)"

subsection \<open>Errors and files\<close>

text \<open>
  A Go \<^verbatim>\<open>error\<close> is either a value that package os or bufio made (kept as its
  message), or the value of
  \<^verbatim>\<open>fmt.Errorf("%s:%d: duplicate entry %s", filename, n, fields[0])\<close>, kept as the
  three arguments of the format.
\<close>

datatype error =
    LibraryError string
  | DuplicateEntry (err_file: string) (err_line: nat) (err_entry: string)

text \<open>
  An opened file is what \<^verbatim>\<open>bufio.Scanner\<close> makes of it: the lines that the
  successive calls of \<^verbatim>\<open>Scan\<close> and \<^verbatim>\<open>Text\<close> deliver, and the value of
  \<^verbatim>\<open>Err\<close> once \<^verbatim>\<open>Scan\<close> has returned false (\<open>None\<close> when the end of the
  file was reached, an error when reading failed or a line was too long for the buffer).
  \<^verbatim>\<open>os.Open\<close> is a function from file names to an error or an opened file.
\<close>

datatype opened = File (scanned: "string list") (scan_err: "error option")

type_synonym filesystem = "string \<Rightarrow> error + opened"

subsection \<open>The loader\<close>

text \<open>
  \<^verbatim>\<open>
  func NewRouter(filename string) (Router, error) {
      r := make(Router)
      file, err := os.Open(filename)
      if err != nil {
          return nil, err
      }
      n := 0
      scanner := bufio.NewScanner(file)
      for scanner.Scan() {
          n++
          if strings.HasPrefix(scanner.Text(), "#") {
              continue
          }
          fields := strings.Fields(scanner.Text())
          if len(fields) == 0 {
              continue
          }
          if len(fields) != 3 {
              continue
          }
          if _, ok := r[fields[0]]; ok {
              return nil, fmt.Errorf("%s:%d: duplicate entry %s", filename, n, fields[0])
          }
          r[fields[0]] = Source{fields[1], fields[2]}
      }
      return r, scanner.Err()
  }
  \<close>
  The result is the pair that the function returns: a table that may be \<^verbatim>\<open>nil\<close>
  (\<open>None\<close>) and an error that may be \<^verbatim>\<open>nil\<close> (\<open>None\<close>). The loop takes the
  file name, the counter \<open>n\<close>, the table \<open>r\<close>, the lines not yet scanned and the
  scanner's last error. The counter is a Go \<^verbatim>\<open>int\<close>; a file of more than
  \<open>2^63\<close> lines is out of reach, so it is a natural number here.
\<close>

fun NewRouter_loop ::
  "string \<Rightarrow> nat \<Rightarrow> Router \<Rightarrow> string list \<Rightarrow> error option \<Rightarrow> Router option \<times> error option"
where
  "NewRouter_loop filename n r [] serr = (Some r, serr)"
| "NewRouter_loop filename n r (text # rest) serr =
     (if HasPrefix text ''#'' then NewRouter_loop filename (n + 1) r rest serr
      else if length (Fields text) = 0 then NewRouter_loop filename (n + 1) r rest serr
      else if length (Fields text) \<noteq> 3 then NewRouter_loop filename (n + 1) r rest serr
      else if r (Fields text ! 0) \<noteq> None
        then (None, Some (DuplicateEntry filename (n + 1) (Fields text ! 0)))
      else NewRouter_loop filename (n + 1)
             (r(Fields text ! 0 \<mapsto> \<lparr>Vcs = Fields text ! 1, Url = Fields text ! 2\<rparr>)) rest serr)"

definition NewRouter :: "filesystem \<Rightarrow> string \<Rightarrow> Router option \<times> error option" where
  "NewRouter fs filename =
     (case fs filename of
        Inl err \<Rightarrow> (None, Some err)
      | Inr opn \<Rightarrow> NewRouter_loop filename 0 Map.empty (scanned opn) (scan_err opn))"

subsection \<open>Records of a configuration file\<close>

text \<open>
  The specification's notions, on the lines of a file: a record is a line that is not a
  comment and has exactly three fields; its entry maps the first field to the other two.
  \<open>second_occurrence ls j\<close> says that line \<open>j\<close> (counted from 0) is a record whose
  prefix an earlier record has already. These definitions follow the specification's
  words, not the code.
\<close>

definition is_record :: "string \<Rightarrow> bool" where
  "is_record l \<longleftrightarrow> \<not> HasPrefix l ''#'' \<and> length (Fields l) = 3"

definition record_prefix :: "string \<Rightarrow> string" where
  "record_prefix l = Fields l ! 0"

definition entry :: "string \<Rightarrow> string \<times> Source" where
  "entry l = (Fields l ! 0, \<lparr>Vcs = Fields l ! 1, Url = Fields l ! 2\<rparr>)"

definition records :: "string list \<Rightarrow> string list" where
  "records ls = filter is_record ls"

definition second_occurrence :: "string list \<Rightarrow> nat \<Rightarrow> bool" where
  "second_occurrence ls j \<longleftrightarrow>
     j < length ls \<and> is_record (ls ! j) \<and>
     (\<exists>i<j. is_record (ls ! i) \<and> record_prefix (ls ! i) = record_prefix (ls ! j))"

text \<open>
  The same with a set of prefixes that are taken already, as the loop meets it with the
  table it has built so far.
\<close>

definition dup_from :: "string set \<Rightarrow> string list \<Rightarrow> nat \<Rightarrow> bool" where
  "dup_from seen ls j \<longleftrightarrow>
     j < length ls \<and> is_record (ls ! j) \<and>
     (record_prefix (ls ! j) \<in> seen \<or>
      (\<exists>i<j. is_record (ls ! i) \<and> record_prefix (ls ! i) = record_prefix (ls ! j)))"

definition well_formed :: "string list \<Rightarrow> bool" where
  "well_formed ls \<longleftrightarrow>
     (\<forall>l\<in>set ls. \<not> HasPrefix l ''#'' \<and> Fields l \<noteq> [] \<longrightarrow> length (Fields l) = 3) \<and>
     distinct (map record_prefix (records ls))"

subsection \<open>The request handler\<close>

text \<open>
  What the handler reads of \<^verbatim>\<open>*http.Request\<close>: \<^verbatim>\<open>r.Method\<close>,
  \<^verbatim>\<open>r.URL.Path\<close>, \<^verbatim>\<open>r.Host\<close> and \<^verbatim>\<open>r.FormValue("go-get")\<close>.
\<close>

record request =
  req_Method :: string
  req_URL_Path :: string
  req_Host :: string
  req_go_get :: string

text \<open>The local \<^verbatim>\<open>match\<close>: the embedded \<^verbatim>\<open>Source\<close>, \<^verbatim>\<open>Host\<close> and \<^verbatim>\<open>Path\<close>.\<close>

record match = Source +
  Host :: string
  Path :: string

text \<open>
  What the handler writes: \<^verbatim>\<open>http.Error(w, msg, code)\<close>,
  \<^verbatim>\<open>http.Redirect(w, r, url, code)\<close> or \<^verbatim>\<open>pageTmpl.Execute(w, match)\<close>.
\<close>

datatype response =
    HttpError string nat
  | Redirect string nat
  | Page match

text \<open>
  A handler either is done with a response, without having touched the channel, or it
  stands at the receive \<^verbatim>\<open>routes := <-s.Routes\<close> with the rest of its work, a
  function of the table it will receive.
  \<^verbatim>\<open>
  func (s *Server) ServeHTTP(w http.ResponseWriter, r *http.Request) {
      if r.Method != "GET" {
          http.Error(w, "Method Not Allowed", 405)
          return
      }
      routes := <-s.Routes
      if src, root, ok := routes.findPath(r.URL.Path); !ok {
          http.Error(w, "Not Found", 404)
          return
      } else {
          match.Source = src
          match.Host = r.Host
          match.Path = root
      }
      if r.FormValue("go-get") != "1" {
          http.Redirect(w, r, "http://godoc.org/"+r.Host+r.URL.Path, http.StatusSeeOther)
          return
      }
      if err := pageTmpl.Execute(w, match); err != nil {
          log.Print(err)
      }
  }
  \<close>
\<close>

datatype handler = Done response | Recv "Router \<Rightarrow> response"

definition StatusSeeOther :: nat where
  "StatusSeeOther = 303"

definition after_receive :: "request \<Rightarrow> Router \<Rightarrow> response" where
  "after_receive req routes =
     (case findPath routes (req_URL_Path req) of
        (src, root, ok) \<Rightarrow>
          if \<not> ok then HttpError ''Not Found'' 404
          else if req_go_get req \<noteq> ''1''
            then Redirect (''http://godoc.org/'' @ req_Host req @ req_URL_Path req) StatusSeeOther
          else Page \<lparr>Vcs = Vcs src, Url = Url src, Host = req_Host req, Path = root\<rparr>)"

definition ServeHTTP :: "request \<Rightarrow> handler" where
  "ServeHTTP req =
     (if req_Method req \<noteq> ''GET'' then Done (HttpError ''Method Not Allowed'' 405)
      else Recv (after_receive req))"

subsection \<open>The maintenance task and the channel\<close>

text \<open>
  \<^verbatim>\<open>
  func (srv *Server) loadConfig() error {
      r, err := NewRouter(srv.config)
      if err != nil {
          return err
      }
      sig := make(chan os.Signal)
      signal.Notify(sig, syscall.SIGHUP)
      for {
          select {
          case srv.Routes <- r:
          case <-sig:
              if nr, err := NewRouter(srv.config); err != nil {
                  log.Print(err)
              } else {
                  r = nr
              }
          }
      }
  }
  \<close>
  \<^verbatim>\<open>main\<close> starts the HTTP server in a goroutine of its own, calls
  \<^verbatim>\<open>loadConfig\<close> and ends the process with \<^verbatim>\<open>log.Fatal\<close> when it returns an
  error. \<^verbatim>\<open>Routes\<close> is an unbuffered channel: a handler's receive completes only
  together with the send of the \<^verbatim>\<open>select\<close>.

  The task is in one of four places: in its first call of \<^verbatim>\<open>NewRouter\<close>
  (\<open>Starting\<close>), at the \<^verbatim>\<open>select\<close> with the table \<open>r\<close> (\<open>Selecting r\<close>), in the
  call of \<^verbatim>\<open>NewRouter\<close> after a signal, still holding \<open>r\<close> (\<open>Reloading r\<close>), or
  gone with the process (\<open>Exited\<close>).
\<close>

datatype task = Starting | Selecting Router | Reloading Router | Exited

record server =
  task :: task
  handlers :: "handler list"
  logged :: "error list"

definition init_server :: server where
  "init_server = \<lparr>task = Starting, handlers = [], logged = []\<rparr>"

text \<open>A \<^verbatim>\<open>nil\<close> map reads like an empty one.\<close>

definition nil_as_empty :: "Router option \<Rightarrow> Router" where
  "nil_as_empty nr = (case nr of None \<Rightarrow> Map.empty | Some t \<Rightarrow> t)"

text \<open>
  What can happen: a request arrives and its handler starts; the send of the
  \<^verbatim>\<open>select\<close> meets the receive of the \<open>i\<close>-th handler; the process gets SIGHUP;
  the call of \<^verbatim>\<open>NewRouter\<close> that the task is in returns, having read the files as
  they were then. \<open>step\<close> gives the next state, or \<open>None\<close> when the event cannot happen
  in the state. A SIGHUP before \<^verbatim>\<open>signal.Notify\<close> ends the process (the default of
  the Go runtime); one that comes while the task is not at the \<^verbatim>\<open>select\<close> is
  dropped, since \<^verbatim>\<open>sig\<close> has no buffer.
\<close>

datatype event = Request request | Rendezvous nat | Sighup | Loaded filesystem

fun step :: "string \<Rightarrow> event \<Rightarrow> server \<Rightarrow> server option" where
  "step config (Request req) s =
     (case task s of
        Exited \<Rightarrow> None
      | _ \<Rightarrow> Some (s\<lparr>handlers := handlers s @ [ServeHTTP req]\<rparr>))"
| "step config (Rendezvous i) s =
     (case task s of
        Selecting r \<Rightarrow>
          (if i < length (handlers s)
           then (case handlers s ! i of
                   Recv k \<Rightarrow> Some (s\<lparr>handlers := (handlers s)[i := Done (k r)]\<rparr>)
                 | Done _ \<Rightarrow> None)
           else None)
      | _ \<Rightarrow> None)"
| "step config Sighup s =
     (case task s of
        Starting \<Rightarrow> Some (s\<lparr>task := Exited\<rparr>)
      | Selecting r \<Rightarrow> Some (s\<lparr>task := Reloading r\<rparr>)
      | Reloading r \<Rightarrow> Some s
      | Exited \<Rightarrow> None)"
| "step config (Loaded fs) s =
     (case task s of
        Starting \<Rightarrow>
          (case NewRouter fs config of
             (r, Some err) \<Rightarrow> Some (s\<lparr>task := Exited, logged := logged s @ [err]\<rparr>)
           | (r, None) \<Rightarrow> Some (s\<lparr>task := Selecting (nil_as_empty r)\<rparr>))
      | Reloading r \<Rightarrow>
          (case NewRouter fs config of
             (nr, Some err) \<Rightarrow> Some (s\<lparr>task := Selecting r, logged := logged s @ [err]\<rparr>)
           | (nr, None) \<Rightarrow> Some (s\<lparr>task := Selecting (nil_as_empty nr)\<rparr>))
      | _ \<Rightarrow> None)"

fun run :: "string \<Rightarrow> event list \<Rightarrow> server \<Rightarrow> server option" where
  "run config [] s = Some s"
| "run config (e # es) s =
     (case step config e s of
        None \<Rightarrow> None
      | Some s' \<Rightarrow> run config es s')"

fun is_Loaded :: "event \<Rightarrow> bool" where
  "is_Loaded (Loaded fs) = True"
| "is_Loaded e = False"

text \<open>
  \<open>loaded_table cfg r\<close>: the table \<open>r\<close> is the complete result of a call of
  \<^verbatim>\<open>NewRouter\<close> on the configuration file that returned no error. \<open>task_ok\<close>
  says so of the table that the task holds.
\<close>

definition loaded_table :: "string \<Rightarrow> Router \<Rightarrow> bool" where
  "loaded_table cfg r \<longleftrightarrow> (\<exists>fs. NewRouter fs cfg = (Some r, None))"

definition task_ok :: "string \<Rightarrow> task \<Rightarrow> bool" where
  "task_ok cfg t \<longleftrightarrow>
     (case t of
        Selecting r \<Rightarrow> loaded_table cfg r
      | Reloading r \<Rightarrow> loaded_table cfg r
      | _ \<Rightarrow> True)"

subsection \<open>Facts about Split and Join\<close>

lemma Split_Nil: "Split [] = [[]]"
  by (simp add: Split.simps)

lemma Split_slash: "Split (CHR ''/'' # cs) = [] # Split cs"
  by (simp add: Split.simps)

lemma Split_other:
  "c \<noteq> CHR ''/'' \<Longrightarrow> Split (c # cs) = (c # hd (Split cs)) # tl (Split cs)"
  by (subst (1 2 3) Split.simps) simp

lemma Split_not_Nil: "Split s \<noteq> []"
  by (subst Split.simps) simp

lemma Split_slash_free: "x \<in> set (Split s) \<Longrightarrow> CHR ''/'' \<notin> set x"
proof (induction s arbitrary: x)
  case Nil
  then show ?case by (simp add: Split_Nil)
next
  case (Cons c cs)
  show ?case
  proof (cases "c = CHR ''/''")
    case True
    with Cons show ?thesis by (auto simp: Split_slash)
  next
    case False
    from Split_not_Nil [of cs] obtain y ys where ys: "Split cs = y # ys"
      by (cases "Split cs") auto
    with Cons False show ?thesis by (auto simp: Split_other)
  qed
qed

lemma Join_Cons: "ys \<noteq> [] \<Longrightarrow> Join (x # ys) = x @ CHR ''/'' # Join ys"
  by (cases ys) auto

lemma Join_Split: "Join (Split s) = s"
proof (induction s)
  case Nil
  then show ?case by (simp add: Split_Nil)
next
  case (Cons c cs)
  from Split_not_Nil [of cs] obtain y ys where ys: "Split cs = y # ys"
    by (cases "Split cs") auto
  show ?case
  proof (cases "c = CHR ''/''")
    case True
    with Cons show ?thesis by (simp add: Split_slash Join_Cons Split_not_Nil)
  next
    case False
    with Cons ys show ?thesis by (cases ys) (auto simp: Split_other)
  qed
qed

lemma Split_append_slash:
  "CHR ''/'' \<notin> set x \<Longrightarrow> Split (x @ CHR ''/'' # s) = x # Split s"
  by (induction x) (auto simp: Split_slash Split_other)

lemma Split_no_slash: "CHR ''/'' \<notin> set x \<Longrightarrow> Split x = [x]"
  by (subst Split.simps) simp

lemma Split_Join:
  "xs \<noteq> [] \<Longrightarrow> (\<And>x. x \<in> set xs \<Longrightarrow> CHR ''/'' \<notin> set x) \<Longrightarrow> Split (Join xs) = xs"
proof (induction xs rule: Join.induct)
  case 1
  then show ?case by simp
next
  case (2 x)
  then show ?case by (simp add: Split_no_slash)
next
  case (3 x y ys)
  then show ?case by (simp add: Split_append_slash)
qed

subsection \<open>Facts about the resolver\<close>

lemma findPath_loop_Nil: "findPath_loop r [] = (Source_zero, [], False)"
  by (simp add: findPath_loop.simps)

lemma findPath_loop_snoc:
  "findPath_loop r (ys @ [y]) =
     (case r (Join (ys @ [y])) of
        Some src \<Rightarrow> (src, Join (ys @ [y]), True)
      | None \<Rightarrow> findPath_loop r ys)"
  by (subst findPath_loop.simps) (simp add: Let_def split: option.split)

lemma findPath_loop_found:
  "findPath_loop r xs = (src, k, True) \<Longrightarrow>
     \<exists>n. 0 < n \<and> n \<le> length xs \<and> k = Join (take n xs) \<and> r k = Some src \<and>
         (\<forall>m. n < m \<and> m \<le> length xs \<longrightarrow> r (Join (take m xs)) = None)"
proof (induction xs rule: rev_induct)
  case Nil
  then show ?case by (simp add: findPath_loop_Nil)
next
  case (snoc y ys)
  show ?case
  proof (cases "r (Join (ys @ [y]))")
    case (Some s)
    with snoc.prems have "src = s" "k = Join (ys @ [y])"
      by (simp_all add: findPath_loop_snoc)
    with Some show ?thesis
      by (intro exI [of _ "Suc (length ys)"]) auto
  next
    case None
    with snoc.prems have "findPath_loop r ys = (src, k, True)"
      by (simp add: findPath_loop_snoc)
    from snoc.IH [OF this] obtain n where n: "0 < n" "n \<le> length ys" "k = Join (take n ys)"
      "r k = Some src" "\<forall>m. n < m \<and> m \<le> length ys \<longrightarrow> r (Join (take m ys)) = None"
      by blast
    have "r (Join (take m (ys @ [y]))) = None" if "n < m" "m \<le> length (ys @ [y])" for m
    proof (cases "m \<le> length ys")
      case True
      with n(5) that show ?thesis by simp
    next
      case False
      with that have "m = Suc (length ys)" by simp
      with None show ?thesis by simp
    qed
    with n show ?thesis
      by (intro exI [of _ n]) simp
  qed
qed

lemma findPath_loop_not_found:
  "findPath_loop r xs = (src, k, False) \<Longrightarrow>
     src = Source_zero \<and> k = [] \<and>
     (\<forall>m. 0 < m \<and> m \<le> length xs \<longrightarrow> r (Join (take m xs)) = None)"
proof (induction xs rule: rev_induct)
  case Nil
  then show ?case by (simp add: findPath_loop_Nil)
next
  case (snoc y ys)
  from snoc.prems have None: "r (Join (ys @ [y])) = None"
    by (cases "r (Join (ys @ [y]))") (simp_all add: findPath_loop_snoc)
  with snoc.prems have "findPath_loop r ys = (src, k, False)"
    by (simp add: findPath_loop_snoc)
  from snoc.IH [OF this] have IH: "src = Source_zero" "k = []"
    "\<forall>m. 0 < m \<and> m \<le> length ys \<longrightarrow> r (Join (take m ys)) = None"
    by simp_all
  have "r (Join (take m (ys @ [y]))) = None" if "0 < m" "m \<le> length (ys @ [y])" for m
  proof (cases "m \<le> length ys")
    case True
    with IH(3) that show ?thesis by simp
  next
    case False
    with that have "m = Suc (length ys)" by simp
    with None show ?thesis by simp
  qed
  with IH show ?case by simp
qed

lemma ancestor_iff_candidate:
  "ancestor k p \<longleftrightarrow> (\<exists>n. 0 < n \<and> n \<le> length (Split p) \<and> k = Join (take n (Split p)))"
proof
  assume "ancestor k p"
  then have pre: "prefix (Split k) (Split p)"
    by (simp add: ancestor_def)
  then have "Split k = take (length (Split k)) (Split p)"
    by (metis append_eq_conv_conj prefix_def)
  then have "k = Join (take (length (Split k)) (Split p))"
    by (metis Join_Split)
  moreover have "0 < length (Split k)"
    by (simp add: Split_not_Nil)
  moreover from pre have "length (Split k) \<le> length (Split p)"
    by (rule prefix_length_le)
  ultimately show "\<exists>n. 0 < n \<and> n \<le> length (Split p) \<and> k = Join (take n (Split p))"
    by blast
next
  assume "\<exists>n. 0 < n \<and> n \<le> length (Split p) \<and> k = Join (take n (Split p))"
  then obtain n where n: "0 < n" "n \<le> length (Split p)" "k = Join (take n (Split p))"
    by blast
  from n(1,2) have "take n (Split p) \<noteq> []"
    by auto
  moreover have "CHR ''/'' \<notin> set x" if "x \<in> set (take n (Split p))" for x
    using that Split_slash_free [of x p] by (auto dest: in_set_takeD)
  ultimately have "Split k = take n (Split p)"
    unfolding n(3) by (rule Split_Join)
  then show "ancestor k p"
    by (simp add: ancestor_def take_is_prefix)
qed

lemma length_Join_append: "length (Join xs) \<le> length (Join (xs @ zs))"
proof (induction xs rule: Join.induct)
  case 1
  then show ?case by simp
next
  case (2 x)
  then show ?case by (cases zs) simp_all
next
  case (3 x y ys)
  then show ?case by simp
qed

lemma ancestor_length_le: "ancestor a b \<Longrightarrow> length a \<le> length b"
proof -
  assume "ancestor a b"
  then obtain zs where "Split b = Split a @ zs"
    by (auto simp: ancestor_def prefix_def)
  then have "length (Join (Split a)) \<le> length (Join (Split b))"
    by (simp add: length_Join_append)
  then show ?thesis by (simp add: Join_Split)
qed

lemma ancestor_take_mono:
  assumes "0 < n'" "n' \<le> n" "n \<le> length (Split p)"
  shows "ancestor (Join (take n' (Split p))) (Join (take n (Split p)))"
proof -
  have sf: "CHR ''/'' \<notin> set x" if "x \<in> set (take m (Split p))" for x m
    using that Split_slash_free [of x p] by (auto dest: in_set_takeD)
  from assms have "take n' (Split p) \<noteq> []" "take n (Split p) \<noteq> []"
    by auto
  then have "Split (Join (take n' (Split p))) = take n' (Split p)"
    "Split (Join (take n (Split p))) = take n (Split p)"
    using sf by (simp_all add: Split_Join)
  moreover from assms have "prefix (take n' (Split p)) (take n (Split p))"
    by (metis min.absorb1 take_is_prefix take_take)
  ultimately show ?thesis
    by (simp add: ancestor_def)
qed

subsection \<open>Facts about Fields\<close>

lemma unicodeSpaces_not_Nil: "u \<in> set unicodeSpaces \<Longrightarrow> u \<noteq> []"
  by (auto simp: unicodeSpaces_def)

lemma spaceWidth_pos_iff:
  "0 < spaceWidth s \<longleftrightarrow>
     s \<noteq> [] \<and> (asciiSpace (hd s) \<or> (\<exists>u\<in>set unicodeSpaces. prefix u s))"
proof (cases s)
  case Nil
  then show ?thesis by (simp add: spaceWidth_def)
next
  case (Cons c cs)
  show ?thesis
  proof (cases "find (\<lambda>u. prefix u s) unicodeSpaces")
    case None
    then have "\<not> (\<exists>u\<in>set unicodeSpaces. prefix u s)"
      by (simp add: find_None_iff)
    with None Cons show ?thesis
      by (simp add: spaceWidth_def)
  next
    case (Some u)
    then have u: "u \<in> set unicodeSpaces" "prefix u s"
      by (auto simp: find_Some_iff)
    then have "0 < length u"
      by (simp add: unicodeSpaces_not_Nil)
    with Some Cons u show ?thesis
      by (auto simp: spaceWidth_def)
  qed
qed

lemma spaceWidth_le_length: "spaceWidth s \<le> length s"
proof (cases s)
  case Nil
  then show ?thesis by (simp add: spaceWidth_def)
next
  case (Cons c cs)
  show ?thesis
  proof (cases "find (\<lambda>u. prefix u s) unicodeSpaces")
    case None
    with Cons show ?thesis by (simp add: spaceWidth_def)
  next
    case (Some u)
    then have "prefix u s"
      by (auto simp: find_Some_iff)
    then have "length u \<le> length s"
      by (rule prefix_length_le)
    with Some Cons show ?thesis
      by (simp add: spaceWidth_def)
  qed
qed

lemma spaceWidth_append: "0 < spaceWidth a \<Longrightarrow> 0 < spaceWidth (a @ b)"
proof -
  assume "0 < spaceWidth a"
  then have a: "a \<noteq> []" "asciiSpace (hd a) \<or> (\<exists>u\<in>set unicodeSpaces. prefix u a)"
    by (simp_all add: spaceWidth_pos_iff)
  from a(2) have "asciiSpace (hd (a @ b)) \<or> (\<exists>u\<in>set unicodeSpaces. prefix u (a @ b))"
  proof
    assume "asciiSpace (hd a)"
    with a(1) show ?thesis by simp
  next
    assume "\<exists>u\<in>set unicodeSpaces. prefix u a"
    then obtain u where "u \<in> set unicodeSpaces" "prefix u a" by blast
    then have "u \<in> set unicodeSpaces" "prefix u (a @ b)"
      by (simp_all add: prefix_prefix)
    then show ?thesis by blast
  qed
  with a(1) show ?thesis
    by (simp add: spaceWidth_pos_iff)
qed

lemma space_within_mono: "space_within cur [] \<Longrightarrow> space_within cur s"
proof (induction cur)
  case Nil
  then show ?case by simp
next
  case (Cons c cs)
  then show ?case
    using spaceWidth_append [of "c # cs" s] by auto
qed

lemma space_within_snoc:
  "space_within (cur @ [c]) cs \<longleftrightarrow> space_within cur (c # cs) \<or> 0 < spaceWidth (c # cs)"
  by (induction cur) auto

lemma contains_space_within: "contains_space k = space_within k []"
  by (induction k) auto

lemma contains_space_ascii: "c \<in> set k \<Longrightarrow> asciiSpace c \<Longrightarrow> contains_space k"
proof (induction k)
  case Nil
  then show ?case by simp
next
  case (Cons d ds)
  then show ?case
    by (auto simp: spaceWidth_pos_iff)
qed

lemma fields_scan_fields:
  "\<not> space_within cur s \<Longrightarrow> x \<in> set (fields_scan cur s) \<Longrightarrow> x \<noteq> [] \<and> \<not> contains_space x"
proof (induction cur s rule: fields_scan.induct)
  case (1 cur)
  then show ?case
    by (auto simp: contains_space_within split: if_splits)
next
  case (2 cur c cs)
  show ?case
  proof (cases "0 < spaceWidth (c # cs)")
    case True
    with "2.prems" have "x = cur \<and> cur \<noteq> [] \<or> x \<in> set (fields_scan [] (drop (spaceWidth (c # cs)) (c # cs)))"
      by (auto split: if_splits)
    then show ?thesis
    proof
      assume "x = cur \<and> cur \<noteq> []"
      with "2.prems"(1) show ?thesis
        using space_within_mono [of cur "c # cs"] by (auto simp: contains_space_within)
    next
      assume "x \<in> set (fields_scan [] (drop (spaceWidth (c # cs)) (c # cs)))"
      with "2.IH"(1) [OF True] show ?thesis by simp
    qed
  next
    case False
    with "2.prems" have "\<not> space_within (cur @ [c]) cs" "x \<in> set (fields_scan (cur @ [c]) cs)"
      by (simp_all add: space_within_snoc)
    with "2.IH"(2) [OF False] show ?thesis by simp
  qed
qed

lemma Fields_fields: "x \<in> set (Fields s) \<Longrightarrow> x \<noteq> [] \<and> \<not> contains_space x"
  using fields_scan_fields [of "[]" s x] by (simp add: Fields_def)

subsection \<open>Facts about the loader\<close>

lemma loop_skip:
  "\<not> is_record l \<Longrightarrow> NewRouter_loop f n r (l # ls) se = NewRouter_loop f (Suc n) r ls se"
  by (auto simp: is_record_def)

lemma loop_dup:
  "is_record l \<Longrightarrow> r (record_prefix l) \<noteq> None \<Longrightarrow>
     NewRouter_loop f n r (l # ls) se = (None, Some (DuplicateEntry f (Suc n) (record_prefix l)))"
  by (auto simp: is_record_def record_prefix_def)

lemma loop_add:
  "is_record l \<Longrightarrow> r (record_prefix l) = None \<Longrightarrow>
     NewRouter_loop f n r (l # ls) se =
       NewRouter_loop f (Suc n) (r(fst (entry l) \<mapsto> snd (entry l))) ls se"
  by (auto simp: is_record_def record_prefix_def entry_def)

declare NewRouter_loop.simps(2) [simp del]

lemma fst_entry: "fst (entry l) = record_prefix l"
  by (simp add: entry_def record_prefix_def)

lemma dup_from_0: "dup_from seen (l # ls) 0 \<longleftrightarrow> is_record l \<and> record_prefix l \<in> seen"
  by (auto simp: dup_from_def)

lemma dup_from_Suc:
  "dup_from seen (l # ls) (Suc j) \<longleftrightarrow>
     dup_from (if is_record l then insert (record_prefix l) seen else seen) ls j"
  by (auto simp: dup_from_def less_Suc_eq_0_disj)

lemma second_occurrence_dup_from: "second_occurrence ls j = dup_from {} ls j"
  by (simp add: second_occurrence_def dup_from_def)

lemma loop_first_dup:
  "dup_from (dom r) ls j \<Longrightarrow> (\<And>j'. j' < j \<Longrightarrow> \<not> dup_from (dom r) ls j') \<Longrightarrow>
     NewRouter_loop f n r ls se =
       (None, Some (DuplicateEntry f (Suc (n + j)) (record_prefix (ls ! j))))"
proof (induction ls arbitrary: n r j)
  case Nil
  then show ?case by (simp add: dup_from_def)
next
  case (Cons l ls)
  show ?case
  proof (cases j)
    case 0
    with Cons.prems(1) have "is_record l" "r (record_prefix l) \<noteq> None"
      by (auto simp: dup_from_0)
    with 0 show ?thesis by (simp add: loop_dup)
  next
    case (Suc j0)
    with Cons.prems(2) [of 0] have no0: "\<not> (is_record l \<and> record_prefix l \<in> dom r)"
      by (simp add: dup_from_0)
    show ?thesis
    proof (cases "is_record l")
      case False
      with Cons.prems Suc have "dup_from (dom r) ls j0"
        "\<And>j'. j' < j0 \<Longrightarrow> \<not> dup_from (dom r) ls j'"
        using dup_from_Suc [of "dom r" l ls] by (auto simp: Suc_less_eq)
      from Cons.IH [OF this] False Suc show ?thesis
        by (simp add: loop_skip)
    next
      case True
      with no0 have fresh: "r (record_prefix l) = None"
        by auto
      let ?r = "r(fst (entry l) \<mapsto> snd (entry l))"
      have dom: "dom ?r = insert (record_prefix l) (dom r)"
        by (simp add: fst_entry)
      from Cons.prems(1) Suc True have 1: "dup_from (dom ?r) ls j0"
        by (simp add: dup_from_Suc fst_entry)
      have 2: "\<not> dup_from (dom ?r) ls j'" if "j' < j0" for j'
        using Cons.prems(2) [of "Suc j'"] that Suc True by (simp add: dup_from_Suc fst_entry)
      have "NewRouter_loop f n r (l # ls) se = NewRouter_loop f (Suc n) ?r ls se"
        using True fresh by (rule loop_add)
      also have "\<dots> = (None, Some (DuplicateEntry f (Suc (Suc n + j0)) (record_prefix (ls ! j0))))"
        using 1 2 by (rule Cons.IH)
      finally show ?thesis
        using Suc by simp
    qed
  qed
qed

lemma no_dup_from_Cons:
  "(\<forall>j. \<not> dup_from seen (l # ls) j) \<longleftrightarrow>
     \<not> (is_record l \<and> record_prefix l \<in> seen) \<and>
     (\<forall>j. \<not> dup_from (if is_record l then insert (record_prefix l) seen else seen) ls j)"
proof -
  have "(\<forall>j. \<not> dup_from seen (l # ls) j) \<longleftrightarrow>
      \<not> dup_from seen (l # ls) 0 \<and> (\<forall>j. \<not> dup_from seen (l # ls) (Suc j))"
    by (metis nat.exhaust)
  then show ?thesis
    by (simp only: dup_from_0 dup_from_Suc)
qed

lemma no_dup_from_iff:
  "(\<forall>j. \<not> dup_from seen ls j) \<longleftrightarrow>
     distinct (map record_prefix (records ls)) \<and> record_prefix ` set (records ls) \<inter> seen = {}"
proof (induction ls arbitrary: seen)
  case Nil
  then show ?case by (simp add: dup_from_def records_def)
next
  case (Cons l ls)
  show ?case
    unfolding no_dup_from_Cons Cons.IH
    by (cases "is_record l") (auto simp: records_def)
qed

lemma loop_no_dup:
  "(\<forall>j. \<not> dup_from (dom r) ls j) \<Longrightarrow>
     NewRouter_loop f n r ls se = (Some (r ++ map_of (map entry (records ls))), se)"
proof (induction ls arbitrary: n r)
  case Nil
  then show ?case by (simp add: records_def)
next
  case (Cons l ls)
  from Cons.prems have no0: "\<not> (is_record l \<and> record_prefix l \<in> dom r)"
    and rest: "\<forall>j. \<not> dup_from (if is_record l then insert (record_prefix l) (dom r) else dom r) ls j"
    by (simp_all add: no_dup_from_Cons)
  show ?case
  proof (cases "is_record l")
    case False
    with rest have "\<forall>j. \<not> dup_from (dom r) ls j" by simp
    from Cons.IH [OF this] False show ?thesis
      by (simp add: loop_skip records_def)
  next
    case True
    with no0 have fresh: "r (record_prefix l) = None"
      by auto
    let ?r = "r(fst (entry l) \<mapsto> snd (entry l))"
    have dom: "dom ?r = insert (record_prefix l) (dom r)"
      by (simp add: fst_entry)
    from rest True have nd: "\<forall>j. \<not> dup_from (dom ?r) ls j"
      by (simp add: fst_entry)
    then have "record_prefix l \<notin> record_prefix ` set (records ls)"
      unfolding no_dup_from_iff dom by auto
    then have "fst (entry l) \<notin> dom (map_of (map entry (records ls)))"
      by (simp add: dom_map_of_conv_image_fst image_image fst_entry)
    then have eq: "?r ++ map_of (map entry (records ls))
        = r ++ map_of (map entry (records (l # ls)))"
      using True by (simp add: map_add_upd_left records_def)
    have "NewRouter_loop f n r (l # ls) se = NewRouter_loop f (Suc n) ?r ls se"
      using True fresh by (rule loop_add)
    also have "\<dots> = (Some (?r ++ map_of (map entry (records ls))), se)"
      using nd by (rule Cons.IH)
    finally show ?thesis
      by (simp only: eq)
  qed
qed

lemma loop_dom:
  "NewRouter_loop f n r ls se = (Some t, e) \<Longrightarrow>
     dom t \<subseteq> dom r \<union> record_prefix ` set (records ls)"
proof (induction ls arbitrary: n r)
  case Nil
  then show ?case by simp
next
  case (Cons l ls)
  show ?case
  proof (cases "is_record l")
    case False
    with Cons.prems have "NewRouter_loop f (Suc n) r ls se = (Some t, e)"
      by (simp add: loop_skip)
    from Cons.IH [OF this] show ?thesis
      by (auto simp: records_def)
  next
    case True
    show ?thesis
    proof (cases "r (record_prefix l)")
      case (Some a)
      with True Cons.prems show ?thesis
        by (simp add: loop_dup)
    next
      case None
      with True Cons.prems
      have "NewRouter_loop f (Suc n) (r(fst (entry l) \<mapsto> snd (entry l))) ls se = (Some t, e)"
        by (simp add: loop_add)
      from Cons.IH [OF this] True show ?thesis
        by (auto simp: records_def fst_entry)
    qed
  qed
qed

lemma loop_error: "snd (NewRouter_loop f n r ls se) = None \<Longrightarrow> se = None"
proof (induction ls arbitrary: n r)
  case Nil
  then show ?case by simp
next
  case (Cons l ls)
  show ?case
  proof (cases "is_record l")
    case False
    with Cons show ?thesis by (simp add: loop_skip)
  next
    case True
    with Cons show ?thesis
      by (cases "r (record_prefix l)") (simp_all add: loop_add loop_dup)
  qed
qed

lemma record_prefix_in_Fields: "is_record l \<Longrightarrow> record_prefix l \<in> set (Fields l)"
  by (simp add: is_record_def record_prefix_def)

lemma loop_blank:
  "length (Fields l) \<noteq> 3 \<Longrightarrow>
     NewRouter_loop f n r (xs @ l # ys) se = NewRouter_loop f n r (xs @ [] # ys) se"
proof (induction xs arbitrary: n r)
  case Nil
  then show ?case
    by (simp add: NewRouter_loop.simps(2) Fields_def HasPrefix_def)
next
  case (Cons x xs)
  then show ?case by (simp add: NewRouter_loop.simps(2))
qed

lemmas eval_fields = Fields_def HasPrefix_def spaceWidth_def asciiSpace_def unicodeSpaces_def

lemmas eval_loader = NewRouter_def NewRouter_loop.simps(2) eval_fields

lemmas eval_records = is_record_def record_prefix_def entry_def records_def eval_fields

lemma map_fst_entry: "map fst (map entry ls) = map record_prefix ls"
  by (simp add: fst_entry)

lemma NewRouter_no_dup:
  assumes "fs f = Inr (File ls se)" and "distinct (map record_prefix (records ls))"
  shows "NewRouter fs f = (Some (map_of (map entry (records ls))), se)"
proof -
  from assms(2) have "\<forall>j. \<not> dup_from (dom (Map.empty :: Router)) ls j"
    by (simp add: no_dup_from_iff)
  then have "NewRouter_loop f 0 Map.empty ls se
      = (Some (Map.empty ++ map_of (map entry (records ls))), se)"
    by (rule loop_no_dup)
  with assms(1) show ?thesis
    by (simp add: NewRouter_def)
qed

lemma NewRouter_dup:
  assumes "fs f = Inr (File ls se)" and "\<not> distinct (map record_prefix (records ls))"
  shows "\<exists>n p. NewRouter fs f = (None, Some (DuplicateEntry f n p))"
proof -
  from assms(2) obtain j where "dup_from (dom (Map.empty :: Router)) ls j"
    using no_dup_from_iff [of "{}" ls] by auto
  define j' where "j' = (LEAST m. dup_from (dom (Map.empty :: Router)) ls m)"
  from \<open>dup_from (dom (Map.empty :: Router)) ls j\<close>
  have "dup_from (dom (Map.empty :: Router)) ls j'"
    unfolding j'_def by (rule LeastI)
  moreover have "\<not> dup_from (dom (Map.empty :: Router)) ls k" if "k < j'" for k
    using that unfolding j'_def by (rule not_less_Least)
  ultimately have "NewRouter_loop f 0 Map.empty ls se =
      (None, Some (DuplicateEntry f (Suc (0 + j')) (record_prefix (ls ! j'))))"
    by (rule loop_first_dup)
  with assms(1) show ?thesis
    by (simp add: NewRouter_def)
qed

lemma NewRouter_open_error: "fs f = Inl e \<Longrightarrow> NewRouter fs f = (None, Some e)"
  by (simp add: NewRouter_def)

subsection \<open>Facts about the handler and the maintenance task\<close>

lemma step_Rendezvous_iff:
  "step cfg (Rendezvous i) s = Some s' \<longleftrightarrow>
     (\<exists>r k. task s = Selecting r \<and> i < length (handlers s) \<and> handlers s ! i = Recv k \<and>
            s' = s\<lparr>handlers := (handlers s)[i := Done (k r)]\<rparr>)"
  by (cases "task s"; cases "handlers s ! i") auto

lemma step_Rendezvous_Selecting:
  "task s = Selecting r \<Longrightarrow> i < length (handlers s) \<Longrightarrow> handlers s ! i = Recv k \<Longrightarrow>
     step cfg (Rendezvous i) s = Some (s\<lparr>handlers := (handlers s)[i := Done (k r)]\<rparr>)"
  by simp

lemma step_Rendezvous_blocked:
  "(\<And>r. task s \<noteq> Selecting r) \<Longrightarrow> step cfg (Rendezvous i) s = None"
  by (cases "task s") auto

lemma NewRouter_success_table:
  "NewRouter fs f = (nr, None) \<Longrightarrow> \<exists>t. nr = Some t"
proof (cases "fs f")
  case (Inl e)
  assume "NewRouter fs f = (nr, None)"
  with Inl show ?thesis by (simp add: NewRouter_def)
next
  case (Inr opn)
  assume res: "NewRouter fs f = (nr, None)"
  obtain ls se where "opn = File ls se" by (cases opn)
  with Inr have o: "fs f = Inr (File ls se)" by simp
  show ?thesis
  proof (cases "distinct (map record_prefix (records ls))")
    case True
    with o have "NewRouter fs f = (Some (map_of (map entry (records ls))), se)"
      by (rule NewRouter_no_dup)
    with res show ?thesis by auto
  next
    case False
    with o have "\<exists>n p. NewRouter fs f = (None, Some (DuplicateEntry f n p))"
      by (rule NewRouter_dup)
    with res show ?thesis by auto
  qed
qed

lemma step_task_ok:
  assumes "step cfg ev s = Some s'" and "task_ok cfg (task s)"
  shows "task_ok cfg (task s')"
proof (cases ev)
  case (Request req)
  with assms show ?thesis by (cases "task s") auto
next
  case (Rendezvous i)
  have "step cfg (Rendezvous i) s = Some s'"
    using assms(1) unfolding Rendezvous .
  then obtain r k where "s' = s\<lparr>handlers := (handlers s)[i := Done (k r)]\<rparr>"
    unfolding step_Rendezvous_iff by blast
  with assms(2) show ?thesis by simp
next
  case Sighup
  with assms show ?thesis by (cases "task s") (auto simp: task_ok_def)
next
  case (Loaded fs)
  obtain nr e where res: "NewRouter fs cfg = (nr, e)"
    by (cases "NewRouter fs cfg")
  show ?thesis
  proof (cases e)
    case None
    with res obtain t where "nr = Some t"
      using NewRouter_success_table by blast
    with res None have "loaded_table cfg (nil_as_empty nr)"
      by (auto simp: loaded_table_def nil_as_empty_def)
    with assms Loaded res None show ?thesis
      by (cases "task s") (auto simp: task_ok_def)
  next
    case (Some err)
    with assms Loaded res show ?thesis
      by (cases "task s") (auto simp: task_ok_def)
  qed
qed

lemma run_task_ok:
  "run cfg evs s = Some s' \<Longrightarrow> task_ok cfg (task s) \<Longrightarrow> task_ok cfg (task s')"
proof (induction evs arbitrary: s)
  case Nil
  then show ?case by simp
next
  case (Cons ev evs)
  from Cons.prems(1) obtain s1 where s1: "step cfg ev s = Some s1" "run cfg evs s1 = Some s'"
    by (cases "step cfg ev s") auto
  from s1(1) Cons.prems(2) have "task_ok cfg (task s1)"
    by (rule step_task_ok)
  with s1(2) show ?case
    by (rule Cons.IH)
qed

lemma run_append:
  "run cfg (xs @ ys) s = (case run cfg xs s of None \<Rightarrow> None | Some s1 \<Rightarrow> run cfg ys s1)"
  by (induction xs arbitrary: s) (auto split: option.splits)

lemma run_Reloading:
  "run cfg evs s = Some s' \<Longrightarrow> task s = Reloading r \<Longrightarrow> \<forall>ev\<in>set evs. \<not> is_Loaded ev \<Longrightarrow>
     task s' = Reloading r \<and> logged s' = logged s"
proof (induction evs arbitrary: s)
  case Nil
  then show ?case by simp
next
  case (Cons ev evs)
  from Cons.prems(1) obtain s1 where s1: "step cfg ev s = Some s1" "run cfg evs s1 = Some s'"
    by (cases "step cfg ev s") auto
  from Cons.prems(3) have nl: "\<not> is_Loaded ev" "\<forall>ev\<in>set evs. \<not> is_Loaded ev"
    by simp_all
  from s1(1) Cons.prems(2) nl(1) have "task s1 = Reloading r \<and> logged s1 = logged s"
    by (cases ev) auto
  with Cons.IH [OF s1(2) _ nl(2)] show ?case
    by simp
qed

subsection \<open>Claims about the resolver\<close>

text \<open>
  C3: for every route table and every request path, \<open>findPath\<close> either returns a
  registered prefix that is a segment-wise ancestor of the path, with its source, and
  every other registered ancestor of the path is an ancestor of the returned one (so none
  is longer), or it returns not-found and no registered prefix is a segment-wise ancestor
  of the path.
\<close>

theorem findPath_longest_ancestor:
  "(\<exists>src k. findPath r p = (src, k, True) \<and> r k = Some src \<and> ancestor k p \<and>
       (\<forall>k'. k' \<in> dom r \<and> ancestor k' p \<longrightarrow> ancestor k' k \<and> length k' \<le> length k))
   \<or> (findPath r p = (Source_zero, [], False) \<and> (\<forall>k'. ancestor k' p \<longrightarrow> k' \<notin> dom r))"
proof -
  obtain src k ok where res: "findPath r p = (src, k, ok)"
    by (cases "findPath r p") auto
  show ?thesis
  proof (cases ok)
    case True
    with res have "findPath_loop r (Split p) = (src, k, True)"
      by (simp add: findPath_def)
    from findPath_loop_found [OF this] obtain n where n: "0 < n" "n \<le> length (Split p)"
      "k = Join (take n (Split p))" "r k = Some src"
      "\<forall>m. n < m \<and> m \<le> length (Split p) \<longrightarrow> r (Join (take m (Split p))) = None"
      by blast
    from n(1-3) have anc: "ancestor k p"
      by (auto simp: ancestor_iff_candidate)
    have "ancestor k' k \<and> length k' \<le> length k" if "k' \<in> dom r" "ancestor k' p" for k'
    proof -
      from that(2) obtain n' where n': "0 < n'" "n' \<le> length (Split p)"
        "k' = Join (take n' (Split p))"
        by (auto simp: ancestor_iff_candidate)
      with that(1) n(5) have "n' \<le> n"
        by (metis domIff not_le_imp_less)
      with n' n(2,3) have "ancestor k' k"
        by (simp add: ancestor_take_mono)
      then show ?thesis
        by (simp add: ancestor_length_le)
    qed
    with True res n(4) anc show ?thesis by auto
  next
    case False
    with res have "findPath_loop r (Split p) = (src, k, False)"
      by (simp add: findPath_def)
    from findPath_loop_not_found [OF this] have nf: "src = Source_zero" "k = []"
      "\<forall>m. 0 < m \<and> m \<le> length (Split p) \<longrightarrow> r (Join (take m (Split p))) = None"
      by simp_all
    have "k' \<notin> dom r" if "ancestor k' p" for k'
      using that nf(3) by (auto simp: ancestor_iff_candidate)
    with False res nf(1,2) show ?thesis by auto
  qed
qed

theorem findPath_longest_ancestor_witness:
  "findPath [''/net'' \<mapsto> \<lparr>Vcs = ''hg'', Url = ''a''\<rparr>, ''/net/lldp'' \<mapsto> \<lparr>Vcs = ''git'', Url = ''b''\<rparr>]
     ''/net/lldp/internal'' = (\<lparr>Vcs = ''git'', Url = ''b''\<rparr>, ''/net/lldp'', True) \<and>
   ancestor ''/net'' ''/net/lldp'' \<and> length ''/net'' \<le> length ''/net/lldp''"
proof -
  let ?r = "[''/net'' \<mapsto> \<lparr>Vcs = ''hg'', Url = ''a''\<rparr>, ''/net/lldp'' \<mapsto> \<lparr>Vcs = ''git'', Url = ''b''\<rparr>]"
  let ?p = "''/net/lldp/internal''"
  have ev: "findPath ?r ?p = (\<lparr>Vcs = ''git'', Url = ''b''\<rparr>, ''/net/lldp'', True)"
    by (simp add: findPath_def Split_slash Split_other Split_Nil findPath_loop.simps)
  have reg: "''/net'' \<in> dom ?r"
    by simp
  have anc: "ancestor ''/net'' ?p"
    by (simp add: ancestor_def Split_slash Split_other Split_Nil)
  from findPath_longest_ancestor [of ?r ?p]
  have "\<forall>k'. k' \<in> dom ?r \<and> ancestor k' ?p \<longrightarrow>
          ancestor k' ''/net/lldp'' \<and> length k' \<le> length ''/net/lldp''"
    unfolding ev by (elim disjE exE conjE) simp_all
  with reg anc have "ancestor ''/net'' ''/net/lldp'' \<and> length ''/net'' \<le> length ''/net/lldp''"
    by blast
  with ev show ?thesis by simp
qed

text \<open>
  C6: with the table that maps \<open>/net\<close> to a source \<open>S\<close> and nothing else, the path
  \<open>/network\<close> is not found, and the path \<open>/net/lldp\<close> resolves to \<open>S\<close> with the
  matched root \<open>/net\<close>.
\<close>

theorem segment_boundary:
  "findPath [''/net'' \<mapsto> S] ''/network'' = (Source_zero, [], False) \<and>
   findPath [''/net'' \<mapsto> S] ''/net/lldp'' = (S, ''/net'', True)"
  by (simp add: findPath_def Split_slash Split_other Split_Nil findPath_loop.simps)

theorem segment_boundary_witness:
  "findPath [''/net'' \<mapsto> \<lparr>Vcs = ''git'', Url = ''https://example.org/net.git''\<rparr>] ''/network''
     = (\<lparr>Vcs = [], Url = []\<rparr>, [], False) \<and>
   findPath [''/net'' \<mapsto> \<lparr>Vcs = ''git'', Url = ''https://example.org/net.git''\<rparr>] ''/net/lldp''
     = (\<lparr>Vcs = ''git'', Url = ''https://example.org/net.git''\<rparr>, ''/net'', True)"
  using segment_boundary [of "\<lparr>Vcs = ''git'', Url = ''https://example.org/net.git''\<rparr>"]
  by (simp add: Source_zero_def)

subsection \<open>Claims about the loader\<close>

text \<open>
  C2, as stated, says that a file with a line of two fields makes \<open>NewRouter\<close> fail
  with an error that names the line. It does not: on the file whose first line is
  \<open>/a git\<close> and whose second line is \<open>/b hg u\<close>, \<open>NewRouter\<close> returns a table with
  the one entry for \<open>/b\<close> and no error.
\<close>

theorem malformed_line_counterexample:
  "NewRouter (\<lambda>_. Inr (File [''/a git'', ''/b hg u''] None)) ''cfg'' =
     (Some [''/b'' \<mapsto> \<lparr>Vcs = ''hg'', Url = ''u''\<rparr>], None)"
  by (simp add: eval_loader)

text \<open>
  C2, amended: a line whose field count is not 3 is passed over like an empty line. It
  causes no error and gives no entry: the result of \<open>NewRouter\<close> is the result on the
  same file with that line emptied (the line still counts in the line numbers of the
  lines after it).
\<close>

theorem malformed_line_skipped:
  assumes "fs f = Inr (File (xs @ l # ys) se)" and "length (Fields l) \<noteq> 3"
  shows "NewRouter fs f = NewRouter (fs(f := Inr (File (xs @ [] # ys) se))) f"
  using assms by (simp add: NewRouter_def loop_blank)

theorem malformed_line_skipped_witness:
  "length (Fields ''/a git'') \<noteq> 3 \<and>
   NewRouter (\<lambda>_. Inr (File [''# routes'', ''/a git'', ''/b hg u''] None)) ''cfg'' =
   NewRouter ((\<lambda>_. Inr (File [''# routes'', ''/a git'', ''/b hg u''] None))
                (''cfg'' := Inr (File [''# routes'', [], ''/b hg u''] None))) ''cfg''"
proof -
  have n3: "length (Fields ''/a git'') \<noteq> 3"
    by (simp add: eval_fields)
  from malformed_line_skipped
    [where fs = "\<lambda>_. Inr (File [''# routes'', ''/a git'', ''/b hg u''] None)"
       and f = "''cfg''" and xs = "[''# routes'']" and l = "''/a git''"
       and ys = "[''/b hg u'']" and se = None] n3
  show ?thesis
    by simp
qed

text \<open>
  C5: when two records of the file (lines that are not comments and have exactly three
  fields), at the lines \<open>i < j\<close> counted from 0, have the same prefix, \<open>NewRouter\<close>
  returns no table and the error \<open>DuplicateEntry\<close> with the file name, the 1-based
  number \<open>j' + 1\<close> of the first line of the file that repeats the prefix of an earlier
  record, and that prefix. The load stops at this first duplicate: \<open>j' \<le> j\<close>, whatever
  the scanner would have reported at the end.
\<close>

theorem duplicate_prefix_fails:
  assumes "fs f = Inr (File ls se)"
    and "i < j" and "j < length ls"
    and "is_record (ls ! i)" and "is_record (ls ! j)"
    and "record_prefix (ls ! i) = record_prefix (ls ! j)"
  shows "\<exists>j'\<le>j. second_occurrence ls j' \<and> (\<forall>k<j'. \<not> second_occurrence ls k) \<and>
           NewRouter fs f =
             (None, Some (DuplicateEntry f (Suc j') (record_prefix (ls ! j'))))"
proof -
  from assms(2-6) have so: "second_occurrence ls j"
    by (auto simp: second_occurrence_def)
  define j' where "j' = (LEAST m. second_occurrence ls m)"
  from so have first: "second_occurrence ls j'"
    unfolding j'_def by (rule LeastI)
  from so have le: "j' \<le> j"
    unfolding j'_def by (rule Least_le)
  have before: "\<not> second_occurrence ls k" if "k < j'" for k
    using that unfolding j'_def by (rule not_less_Least)
  from first have "dup_from (dom (Map.empty :: Router)) ls j'"
    by (simp add: second_occurrence_dup_from)
  moreover have "\<not> dup_from (dom (Map.empty :: Router)) ls k" if "k < j'" for k
    using before [OF that] by (simp add: second_occurrence_dup_from)
  ultimately have "NewRouter_loop f 0 Map.empty ls se =
      (None, Some (DuplicateEntry f (Suc (0 + j')) (record_prefix (ls ! j'))))"
    by (rule loop_first_dup)
  with assms(1) have "NewRouter fs f =
      (None, Some (DuplicateEntry f (Suc j') (record_prefix (ls ! j'))))"
    by (simp add: NewRouter_def)
  with first le before show ?thesis by blast
qed

theorem duplicate_prefix_fails_witness:
  "NewRouter (\<lambda>_. Inr (File [''/a git u'', ''# c'', ''/b hg v'', ''/a svn w'', ''/b hg v''] None)) ''cfg''
     = (None, Some (DuplicateEntry ''cfg'' 4 ''/a'')) \<and>
   (\<exists>j'\<le>3. second_occurrence [''/a git u'', ''# c'', ''/b hg v'', ''/a svn w'', ''/b hg v''] j' \<and>
      NewRouter (\<lambda>_. Inr (File [''/a git u'', ''# c'', ''/b hg v'', ''/a svn w'', ''/b hg v''] None)) ''cfg''
        = (None, Some (DuplicateEntry ''cfg'' (Suc j')
             (record_prefix ([''/a git u'', ''# c'', ''/b hg v'', ''/a svn w'', ''/b hg v''] ! j')))))"
proof -
  let ?ls = "[''/a git u'', ''# c'', ''/b hg v'', ''/a svn w'', ''/b hg v'']"
  let ?fs = "\<lambda>_ :: string. Inr (File ?ls None) :: error + opened"
  have ev: "NewRouter ?fs ''cfg'' = (None, Some (DuplicateEntry ''cfg'' 4 ''/a''))"
    by (simp add: eval_loader)
  have h: "?fs ''cfg'' = Inr (File ?ls None)" "(0::nat) < 3" "3 < length ?ls"
    "is_record (?ls ! 0)" "is_record (?ls ! 3)"
    "record_prefix (?ls ! 0) = record_prefix (?ls ! 3)"
    by (simp_all add: eval_records)
  from duplicate_prefix_fails [where fs = ?fs and f = "''cfg''" and ls = ?ls and se = None
      and i = 0 and j = 3] h
  have "\<exists>j'\<le>3. second_occurrence ?ls j' \<and> (\<forall>k<j'. \<not> second_occurrence ?ls k) \<and>
      NewRouter ?fs ''cfg'' =
        (None, Some (DuplicateEntry ''cfg'' (Suc j') (record_prefix (?ls ! j'))))"
    by blast
  with ev show ?thesis
    by blast
qed

text \<open>
  C7: for a file that opens and is scanned to its end without error, in which every line
  that is neither a comment nor blank has exactly three fields and no two records have
  the same prefix, \<open>NewRouter\<close> returns a table and no error, and the table maps \<open>p\<close>
  to \<open>src\<close> exactly when a record of the file has the prefix \<open>p\<close> and the source
  \<open>src\<close>. Comments and blank lines are no records and give no entry.
\<close>

theorem well_formed_file_loads:
  assumes "fs f = Inr (File ls None)" and "well_formed ls"
  shows "\<exists>t. NewRouter fs f = (Some t, None) \<and>
           (\<forall>p src. t p = Some src \<longleftrightarrow> (p, src) \<in> set (map entry (records ls)))"
proof -
  from assms(2) have d: "distinct (map record_prefix (records ls))"
    by (simp add: well_formed_def)
  with assms(1) have "NewRouter fs f = (Some (map_of (map entry (records ls))), None)"
    by (rule NewRouter_no_dup)
  moreover from d have "distinct (map fst (map entry (records ls)))"
    by (simp only: map_fst_entry)
  then have "map_of (map entry (records ls)) p = Some src
      \<longleftrightarrow> (p, src) \<in> set (map entry (records ls))" for p src
    by (rule map_of_eq_Some_iff)
  ultimately show ?thesis by blast
qed

theorem well_formed_file_loads_witness:
  "well_formed [[], ''# comment'', ''/net/lldp git https://example.org/net/lldp.git'',
      ''/www hg https://example.org/www''] \<and>
   (\<exists>t. NewRouter (\<lambda>_. Inr (File [[], ''# comment'',
            ''/net/lldp git https://example.org/net/lldp.git'',
            ''/www hg https://example.org/www''] None)) ''cfg'' = (Some t, None) \<and>
        t ''/net/lldp'' = Some \<lparr>Vcs = ''git'', Url = ''https://example.org/net/lldp.git''\<rparr> \<and>
        t ''/www'' = Some \<lparr>Vcs = ''hg'', Url = ''https://example.org/www''\<rparr> \<and>
        t ''# comment'' = None)"
proof -
  let ?ls = "[[], ''# comment'', ''/net/lldp git https://example.org/net/lldp.git'',
      ''/www hg https://example.org/www'']"
  let ?fs = "\<lambda>_ :: string. Inr (File ?ls None) :: error + opened"
  have wf: "well_formed ?ls"
    by (simp add: well_formed_def eval_records)
  have es: "map entry (records ?ls) =
      [(''/net/lldp'', \<lparr>Vcs = ''git'', Url = ''https://example.org/net/lldp.git''\<rparr>),
       (''/www'', \<lparr>Vcs = ''hg'', Url = ''https://example.org/www''\<rparr>)]"
    by (simp add: eval_records)
  from well_formed_file_loads [where fs = ?fs and f = "''cfg''" and ls = ?ls] wf
  obtain t where t: "NewRouter ?fs ''cfg'' = (Some t, None)"
    "\<forall>p src. t p = Some src \<longleftrightarrow> (p, src) \<in> set (map entry (records ?ls))"
    by auto
  from t(2) have "t ''/net/lldp'' = Some \<lparr>Vcs = ''git'', Url = ''https://example.org/net/lldp.git''\<rparr>"
    "t ''/www'' = Some \<lparr>Vcs = ''hg'', Url = ''https://example.org/www''\<rparr>"
    unfolding es by simp_all
  moreover from t(2) have "t ''# comment'' = None"
    unfolding es by (cases "t ''# comment''") simp_all
  ultimately show ?thesis
    using wf t(1) by blast
qed

text \<open>
  C8: \<open>NewRouter\<close> returns a \<^verbatim>\<open>nil\<close> error exactly when the file was opened, the
  scanner reached its end without error and no record repeats a prefix; the table
  returned then is the table of all the records of the file. So after a failure to open,
  a scanner error or a duplicate entry the error is not \<^verbatim>\<open>nil\<close>, also where the
  function returns the table it has built so far beside the scanner's error.
\<close>

theorem NewRouter_success_iff:
  "snd (NewRouter fs f) = None \<longleftrightarrow>
     (\<exists>ls. fs f = Inr (File ls None) \<and> distinct (map record_prefix (records ls)) \<and>
           fst (NewRouter fs f) = Some (map_of (map entry (records ls))))"
proof
  assume ok: "snd (NewRouter fs f) = None"
  show "\<exists>ls. fs f = Inr (File ls None) \<and> distinct (map record_prefix (records ls)) \<and>
           fst (NewRouter fs f) = Some (map_of (map entry (records ls)))"
  proof (cases "fs f")
    case (Inl e)
    with ok show ?thesis by (simp add: NewRouter_open_error)
  next
    case (Inr opn)
    obtain ls se where opn: "opn = File ls se"
      by (cases opn)
    with Inr have open_ok: "fs f = Inr (File ls se)"
      by simp
    have d: "distinct (map record_prefix (records ls))"
    proof (rule ccontr)
      assume "\<not> distinct (map record_prefix (records ls))"
      with open_ok have "\<exists>n p. NewRouter fs f = (None, Some (DuplicateEntry f n p))"
        by (rule NewRouter_dup)
      with ok show False by auto
    qed
    with open_ok have res: "NewRouter fs f = (Some (map_of (map entry (records ls))), se)"
      by (rule NewRouter_no_dup)
    with ok have "se = None" by simp
    with open_ok d res show ?thesis by simp
  qed
next
  assume "\<exists>ls. fs f = Inr (File ls None) \<and> distinct (map record_prefix (records ls)) \<and>
           fst (NewRouter fs f) = Some (map_of (map entry (records ls)))"
  then obtain ls where "fs f = Inr (File ls None)" "distinct (map record_prefix (records ls))"
    by blast
  then have "NewRouter fs f = (Some (map_of (map entry (records ls))), None)"
    by (rule NewRouter_no_dup)
  then show "snd (NewRouter fs f) = None" by simp
qed

theorem NewRouter_success_iff_witness:
  "NewRouter (\<lambda>_. Inr (File [''/a git u'', ''/b hg v''] (Some (LibraryError ''bufio.Scanner: token too long'')))) ''cfg''
     = (Some [''/a'' \<mapsto> \<lparr>Vcs = ''git'', Url = ''u''\<rparr>, ''/b'' \<mapsto> \<lparr>Vcs = ''hg'', Url = ''v''\<rparr>],
        Some (LibraryError ''bufio.Scanner: token too long'')) \<and>
   snd (NewRouter (\<lambda>_. Inr (File [''/a git u'', ''/b hg v''] (Some (LibraryError ''bufio.Scanner: token too long'')))) ''cfg'')
     \<noteq> None \<and>
   snd (NewRouter (\<lambda>_. Inr (File [''/a git u'', ''/b hg v''] None)) ''cfg'') = None"
proof -
  let ?e = "LibraryError ''bufio.Scanner: token too long''"
  let ?bad = "\<lambda>_ :: string. Inr (File [''/a git u'', ''/b hg v''] (Some ?e)) :: error + opened"
  let ?good = "\<lambda>_ :: string. Inr (File [''/a git u'', ''/b hg v''] None) :: error + opened"
  have ev: "NewRouter ?bad ''cfg''
      = (Some [''/a'' \<mapsto> \<lparr>Vcs = ''git'', Url = ''u''\<rparr>, ''/b'' \<mapsto> \<lparr>Vcs = ''hg'', Url = ''v''\<rparr>], Some ?e)"
    by (simp add: eval_loader)
  have bad: "snd (NewRouter ?bad ''cfg'') \<noteq> None"
    using NewRouter_success_iff [where fs = ?bad and f = "''cfg''"] by simp
  have "distinct (map record_prefix (records [''/a git u'', ''/b hg v'']))"
    by (simp add: eval_records)
  then have "fst (NewRouter ?good ''cfg'')
      = Some (map_of (map entry (records [''/a git u'', ''/b hg v''])))"
    using NewRouter_no_dup [where fs = ?good and f = "''cfg''" and se = None]
    by simp
  then have good: "snd (NewRouter ?good ''cfg'') = None"
    using NewRouter_success_iff [where fs = ?good and f = "''cfg''"]
      \<open>distinct (map record_prefix (records [''/a git u'', ''/b hg v'']))\<close>
    by simp
  from ev bad good show ?thesis by simp
qed

text \<open>
  C9: every key of a table that \<open>NewRouter\<close> returns without error is a non-empty
  string that holds no white space (no white space rune, and in particular none of the
  ASCII white space characters). So the table has no entry for the empty string, and
  \<open>findPath\<close> never answers with the empty string as the matched root.
\<close>

theorem loaded_keys_nonempty:
  assumes "NewRouter fs f = (Some t, None)"
  shows "(\<forall>k\<in>dom t. k \<noteq> [] \<and> \<not> contains_space k \<and> (\<forall>c\<in>set k. \<not> asciiSpace c)) \<and>
         t [] = None \<and>
         (\<forall>p src k. findPath t p = (src, k, True) \<longrightarrow> k \<noteq> [])"
proof -
  have keys: "k \<noteq> [] \<and> \<not> contains_space k \<and> (\<forall>c\<in>set k. \<not> asciiSpace c)" if "k \<in> dom t" for k
  proof -
    from assms obtain opn where "fs f = Inr opn"
      "NewRouter_loop f 0 Map.empty (scanned opn) (scan_err opn) = (Some t, None)"
      by (cases "fs f") (auto simp: NewRouter_def)
    then have "dom t \<subseteq> dom (Map.empty :: Router) \<union> record_prefix ` set (records (scanned opn))"
      by (intro loop_dom)
    with that obtain l where "is_record l" "k = record_prefix l"
      by (auto simp: records_def)
    then have "k \<in> set (Fields l)"
      by (simp add: record_prefix_in_Fields)
    then have "k \<noteq> [] \<and> \<not> contains_space k"
      by (rule Fields_fields)
    then show ?thesis
      using contains_space_ascii [of _ k] by blast
  qed
  have empty: "t [] = None"
  proof (cases "t []")
    case None
    then show ?thesis .
  next
    case (Some a)
    then have "[] \<in> dom t" by auto
    from keys [OF this] show ?thesis by simp
  qed
  have "k \<noteq> []" if "findPath t p = (src, k, True)" for p src k
  proof -
    from that have "findPath_loop t (Split p) = (src, k, True)"
      by (simp add: findPath_def)
    from findPath_loop_found [OF this] have "t k = Some src"
      by blast
    with empty show ?thesis by auto
  qed
  with keys empty show ?thesis by simp
qed

theorem loaded_keys_nonempty_witness:
  "NewRouter (\<lambda>_. Inr (File [''/net git u'', ''  '', ''/www hg v''] None)) ''cfg''
     = (Some [''/net'' \<mapsto> \<lparr>Vcs = ''git'', Url = ''u''\<rparr>, ''/www'' \<mapsto> \<lparr>Vcs = ''hg'', Url = ''v''\<rparr>], None) \<and>
   [''/net'' \<mapsto> \<lparr>Vcs = ''git'', Url = ''u''\<rparr>, ''/www'' \<mapsto> \<lparr>Vcs = ''hg'', Url = ''v''\<rparr>] [] = None \<and>
   \<not> contains_space ''/www''"
proof -
  let ?fs = "\<lambda>_ :: string. Inr (File [''/net git u'', ''  '', ''/www hg v''] None) :: error + opened"
  let ?t = "[''/net'' \<mapsto> \<lparr>Vcs = ''git'', Url = ''u''\<rparr>, ''/www'' \<mapsto> \<lparr>Vcs = ''hg'', Url = ''v''\<rparr>]"
  have ev: "NewRouter ?fs ''cfg'' = (Some ?t, None)"
    by (simp add: eval_loader)
  have "''/www'' \<in> dom ?t"
    by simp
  from loaded_keys_nonempty [OF ev]
  have all: "\<forall>k\<in>dom ?t. k \<noteq> [] \<and> \<not> contains_space k \<and> (\<forall>c\<in>set k. \<not> asciiSpace c)"
    and empty: "?t [] = None"
    by (rule conjunct1, elim conjE)
  from all \<open>''/www'' \<in> dom ?t\<close>
  have "''/www'' \<noteq> [] \<and> \<not> contains_space ''/www'' \<and> (\<forall>c\<in>set ''/www''. \<not> asciiSpace c)"
    by (rule bspec)
  then have "\<not> contains_space ''/www''"
    by (elim conjE)
  with ev empty show ?thesis
    by (intro conjI)
qed

subsection \<open>Claims about the handler and the maintenance task\<close>

text \<open>
  C10: for a request whose method is not GET, \<open>ServeHTTP\<close> is done with the response
  405 Method Not Allowed without having come to the receive from the channel; and when
  the handler does stand at the receive, after which it resolves the path and looks at
  the go-get parameter, the method of the request is GET.
\<close>

theorem non_GET_rejected_first:
  "(req_Method req \<noteq> ''GET'' \<longrightarrow> ServeHTTP req = Done (HttpError ''Method Not Allowed'' 405)) \<and>
   (\<forall>k. ServeHTTP req = Recv k \<longrightarrow> req_Method req = ''GET'' \<and> k = after_receive req)"
  by (simp add: ServeHTTP_def)

theorem non_GET_rejected_first_witness:
  "req_Method \<lparr>req_Method = ''POST'', req_URL_Path = ''/net'', req_Host = ''example.org'', req_go_get = ''1''\<rparr> \<noteq> ''GET'' \<and>
   ServeHTTP \<lparr>req_Method = ''POST'', req_URL_Path = ''/net'', req_Host = ''example.org'', req_go_get = ''1''\<rparr>
     = Done (HttpError ''Method Not Allowed'' 405)"
  using non_GET_rejected_first
    [of "\<lparr>req_Method = ''POST'', req_URL_Path = ''/net'', req_Host = ''example.org'', req_go_get = ''1''\<rparr>"]
  by simp

end
